theory Spec2Isabelle
  imports Main
begin

section \<open>Python values used by the program\<close>

text \<open>
  A Python \<open>str\<close> is a sequence of Unicode code points and a \<open>bytes\<close> object a sequence
  of integers below 256; both are lists of naturals here, a character being its \<open>ord\<close>.
  Every exception the program can raise is a value of \<open>error\<close>. The \<open>ValueError\<close>
  that \<open>encode\<close> raises itself when the carrier is too small is kept apart from the
  \<open>ValueError\<close>s of the built-ins (\<open>str.index\<close>, \<open>list.index\<close>, \<open>int\<close>, \<open>chr\<close>,
  \<open>b64decode\<close> on a non-ASCII string).
\<close>

type_synonym pystr = "nat list"
type_synonym pybytes = "nat list"

datatype error =
    ValueError
  | ValueError_TextTooSmall
  | IndexError
  | UnicodeEncodeError
  | UnicodeDecodeError
  | BinasciiError

text \<open>A string literal as code points.\<close>

definition str :: "string \<Rightarrow> pystr" where
  "str s = map of_char s"

fun bind_e :: "error + 'a \<Rightarrow> ('a \<Rightarrow> error + 'b) \<Rightarrow> error + 'b" where
  "bind_e (Inl e) f = Inl e"
| "bind_e (Inr x) f = f x"

fun mapM_e :: "('a \<Rightarrow> error + 'b) \<Rightarrow> 'a list \<Rightarrow> error + 'b list" where
  "mapM_e f [] = Inr []"
| "mapM_e f (x # xs) = bind_e (f x) (\<lambda>y. bind_e (mapM_e f xs) (\<lambda>ys. Inr (y # ys)))"

text \<open>\<open>xs[i]\<close>: a negative index counts from the end, out of range raises IndexError.\<close>

definition py_get :: "'a list \<Rightarrow> int \<Rightarrow> error + 'a" where
  "py_get xs i =
     (if 0 \<le> i \<and> i < int (length xs) then Inr (xs ! nat i)
      else if i < 0 \<and> - i \<le> int (length xs) then Inr (xs ! nat (int (length xs) + i))
      else Inl IndexError)"

text \<open>\<open>xs[:k]\<close>: a negative bound counts from the end; the slice never raises.\<close>

definition py_take :: "'a list \<Rightarrow> int \<Rightarrow> 'a list" where
  "py_take xs k = (if k < 0 then take (length xs - nat (- k)) xs else take (nat k) xs)"

text \<open>\<open>xs.index(x)\<close>: the first position of \<open>x\<close>, ValueError when there is none.\<close>

fun index_of :: "'a list \<Rightarrow> 'a \<Rightarrow> error + nat" where
  "index_of [] x = Inl ValueError"
| "index_of (y # ys) x = (if y = x then Inr 0 else bind_e (index_of ys x) (\<lambda>i. Inr (Suc i)))"

text \<open>\<open>bin(n)[2:]\<close> for \<open>n \<ge> 0\<close>: the binary digits of \<open>n\<close>, most significant first.\<close>

fun bin2 :: "nat \<Rightarrow> pystr" where
  "bin2 n = (if n < 2 then [48 + n] else bin2 (n div 2) @ [48 + n mod 2])"

declare bin2.simps [simp del]

text \<open>\<open>"{0:b}".format(i)\<close>: a minus sign before the digits of a negative number.\<close>

definition format_b :: "int \<Rightarrow> pystr" where
  "format_b i = (if i < 0 then 45 # bin2 (nat (- i)) else bin2 (nat i))"

text \<open>\<open>s.zfill(w)\<close>: zeros on the left up to width \<open>w\<close>, after a leading sign if any.\<close>

definition zfill :: "nat \<Rightarrow> pystr \<Rightarrow> pystr" where
  "zfill w s =
     (case s of
        c # r \<Rightarrow> if c = 43 \<or> c = 45 then c # replicate (w - length s) 48 @ r
                  else replicate (w - length s) 48 @ s
      | [] \<Rightarrow> replicate w 48)"

definition is_bit :: "nat \<Rightarrow> bool" where
  "is_bit c = (c = 48 \<or> c = 49)"

definition bits_val :: "pystr \<Rightarrow> nat" where
  "bits_val s = foldl (\<lambda>a c. 2 * a + (c - 48)) 0 s"

text \<open>
  \<open>int(s, 2)\<close> on an optional sign followed by one or more binary digits; anything else
  is a ValueError. Python's \<open>int\<close> also accepts surrounding white space, a \<open>0b\<close> prefix
  and single underscores between digits: no call of this program passes such a string,
  \<open>encode\<close> passes slices of a string of binary digits and \<open>decode\<close> strings made of
  \<open>0\<close>, \<open>1\<close> and \<open>-\<close>.
\<close>

definition int2 :: "pystr \<Rightarrow> error + int" where
  "int2 s =
     (let neg = (case s of c # r \<Rightarrow> c = 45 | [] \<Rightarrow> False);
          ds = (case s of c # r \<Rightarrow> if c = 43 \<or> c = 45 then r else s | [] \<Rightarrow> s)
      in if ds \<noteq> [] \<and> list_all is_bit ds
         then Inr (if neg then - int (bits_val ds) else int (bits_val ds))
         else Inl ValueError)"

text \<open>\<open>chr(n)\<close>: ValueError outside \<open>range(0x110000)\<close>.\<close>

definition py_chr :: "int \<Rightarrow> error + nat" where
  "py_chr n = (if 0 \<le> n \<and> n < 1114112 then Inr (nat n) else Inl ValueError)"

text \<open>\<open>s.encode('ascii')\<close> and \<open>b.decode('ascii')\<close>.\<close>

definition encode_ascii :: "pystr \<Rightarrow> error + pybytes" where
  "encode_ascii s = (if list_all (\<lambda>c. c < 128) s then Inr s else Inl UnicodeEncodeError)"

definition decode_ascii :: "pybytes \<Rightarrow> error + pystr" where
  "decode_ascii b = (if list_all (\<lambda>c. c < 128) b then Inr b else Inl UnicodeDecodeError)"

text \<open>\<open>s.split(' ')\<close>: the pieces between single spaces, empty pieces kept.\<close>

fun split_sp :: "pystr \<Rightarrow> pystr list" where
  "split_sp [] = [[]]"
| "split_sp (c # cs) =
     (if c = 32 then [] # split_sp cs
      else (case split_sp cs of w # ws \<Rightarrow> (c # w) # ws | [] \<Rightarrow> [[c]]))"

text \<open>
  \<open>re.findall('.{7}', s)\<close>: the non-overlapping runs of seven characters other than a
  newline, scanned from the left.
\<close>

function findall7 :: "pystr \<Rightarrow> pystr list" where
  "findall7 s =
     (if length s < 7 then []
      else if 10 \<notin> set (take 7 s) then take 7 s # findall7 (drop 7 s)
      else findall7 (tl s))"
  by pat_completeness auto
termination
  by (relation "measure length") auto

declare findall7.simps [simp del]

section \<open>The Base64 alphabet and the standard codec\<close>

text \<open>The global \<open>dict\<close> of the script: \<open>A-Z\<close>, \<open>a-z\<close>, \<open>0-9\<close>, \<open>+\<close>, \<open>/\<close>.\<close>

definition dict :: "pystr" where
  "dict = [65..<91] @ [97..<123] @ [48..<58] @ [43, 47]"

text \<open>
  \<open>base64.b64encode\<close> (RFC 4648): three bytes give four symbols, a final group of one
  byte gives two symbols and \<open>==\<close>, of two bytes three symbols and \<open>=\<close>.
\<close>

fun b64encode :: "pybytes \<Rightarrow> pystr" where
  "b64encode [] = []"
| "b64encode [a] = [dict ! (a div 4), dict ! (a mod 4 * 16), 61, 61]"
| "b64encode [a, b] =
     [dict ! (a div 4), dict ! (a mod 4 * 16 + b div 16), dict ! (b mod 16 * 4), 61]"
| "b64encode (a # b # c # bs) =
     [dict ! (a div 4), dict ! (a mod 4 * 16 + b div 16),
      dict ! (b mod 16 * 4 + c div 64), dict ! (c mod 64)] @ b64encode bs"

text \<open>
  \<open>binascii.a2b_base64\<close> in its default, non-strict mode, as \<open>base64.b64decode\<close> calls
  it: characters outside the alphabet are skipped, the bits left over in an incomplete
  final symbol are dropped, a pad sequence that completes a quad ends the input, and an
  incomplete quad at the end is an error.
\<close>

definition table_a2b_base64 :: "nat \<Rightarrow> nat option" where
  "table_a2b_base64 c = (case index_of dict c of Inl e \<Rightarrow> None | Inr i \<Rightarrow> Some i)"

fun a2b_loop :: "nat \<Rightarrow> nat \<Rightarrow> nat \<Rightarrow> pystr \<Rightarrow> pybytes \<Rightarrow> error + pybytes" where
  "a2b_loop quad_pos leftchar pads [] out =
     (if quad_pos \<noteq> 0 then Inl BinasciiError else Inr out)"
| "a2b_loop quad_pos leftchar pads (c # cs) out =
     (if c = 61 then
        (if quad_pos \<ge> 2 \<and> quad_pos + (pads + 1) \<ge> 4 then Inr out
         else a2b_loop quad_pos leftchar (if quad_pos \<ge> 2 then pads + 1 else pads) cs out)
      else
        (case table_a2b_base64 c of
           None \<Rightarrow> a2b_loop quad_pos leftchar pads cs out
         | Some v \<Rightarrow>
             (if quad_pos = 0 then a2b_loop 1 v 0 cs out
              else if quad_pos = 1 then
                a2b_loop 2 (v mod 16) 0 cs (out @ [leftchar * 4 + v div 16])
              else if quad_pos = 2 then
                a2b_loop 3 (v mod 4) 0 cs (out @ [leftchar * 16 + v div 4])
              else a2b_loop 0 0 0 cs (out @ [leftchar * 64 + v]))))"

text \<open>\<open>base64.b64decode(s)\<close> on a \<open>str\<close>: a non-ASCII string is a ValueError.\<close>

definition b64decode :: "pystr \<Rightarrow> error + pybytes" where
  "b64decode s =
     (if list_all (\<lambda>c. c < 128) s then a2b_loop 0 0 0 s [] else Inl ValueError)"

section \<open>The program\<close>

definition encode_word :: "pystr \<Rightarrow> pystr \<Rightarrow> error + pystr" where
  "encode_word word secret =
     bind_e (index_of word 61) (\<lambda>first_equal.
     bind_e (py_get word (int first_equal - 1)) (\<lambda>to_modify.
     bind_e (int2 secret) (\<lambda>delta.
     bind_e (index_of dict to_modify) (\<lambda>i.
     bind_e (py_get dict (int i + delta)) (\<lambda>encoded_char.
     Inr (py_take word (int first_equal - 1) @ [encoded_char]
            @ replicate (length word - first_equal) 61))))))"

definition decode_word :: "pystr \<Rightarrow> error + pystr" where
  "decode_word word =
     bind_e (index_of word 61) (\<lambda>first_equal.
     bind_e (py_get word (int first_equal - 1)) (\<lambda>encoded_char.
     bind_e (b64decode word) (\<lambda>decoded.
     bind_e (py_get (b64encode decoded) (int first_equal - 1)) (\<lambda>base_char.
     bind_e (index_of dict encoded_char) (\<lambda>i.
     bind_e (index_of dict base_char) (\<lambda>j.
     Inr (zfill (2 * count_list word 61) (format_b (int i - int j)))))))))"

definition count_equals :: "pystr list \<Rightarrow> nat" where
  "count_equals word_list = 2 * foldl (\<lambda>equals word. equals + count_list word 61) 0 word_list"

text \<open>The loop of \<open>encode\<close> over \<open>words_b64\<close>, with the rest of \<open>bin_secret\<close> as state.\<close>

fun encode_loop :: "pystr list \<Rightarrow> pystr \<Rightarrow> error + pystr list" where
  "encode_loop [] bin_secret = Inr []"
| "encode_loop (word # words) bin_secret =
     (let equals = count_list word 61 in
      if equals > 0 then
        bind_e (encode_word word (take (2 * equals) bin_secret)) (\<lambda>w.
        bind_e (encode_loop words (drop (2 * equals) bin_secret)) (\<lambda>ws. Inr (w # ws)))
      else bind_e (encode_loop words bin_secret) (\<lambda>ws. Inr (word # ws)))"

text \<open>Lines 95 to 98 of \<open>encode\<close>: the length, the characters and the zero fill.\<close>

definition bin_secret_of :: "pystr \<Rightarrow> nat \<Rightarrow> pystr" where
  "bin_secret_of secret secret_max_length =
     (let bin_secret = zfill 16 (bin2 (length secret))
                         @ concat (map (\<lambda>char. zfill 7 (bin2 char)) secret)
      in bin_secret @ replicate (secret_max_length - length bin_secret) 48)"

definition words_b64_of :: "pystr \<Rightarrow> error + pystr list" where
  "words_b64_of text =
     mapM_e (\<lambda>word. bind_e (encode_ascii (word @ [32])) (\<lambda>b. Inr (b64encode b)))
       (split_sp text)"

definition encode :: "pystr \<Rightarrow> pystr \<Rightarrow> error + pystr list" where
  "encode text secret =
     bind_e (words_b64_of text) (\<lambda>words_b64.
       let secret_max_length = count_equals words_b64 in
       if 7 * length secret + 16 > secret_max_length then Inl ValueError_TextTooSmall
       else encode_loop words_b64 (bin_secret_of secret secret_max_length))"

text \<open>The loop of \<open>decode\<close>, with \<open>bin_secret\<close> and \<open>decoded_string\<close> as state.\<close>

fun decode_loop :: "pystr list \<Rightarrow> pystr \<Rightarrow> pystr \<Rightarrow> error + (pystr \<times> pystr)" where
  "decode_loop [] bin_secret decoded_string = Inr (bin_secret, decoded_string)"
| "decode_loop (word # words) bin_secret decoded_string =
     bind_e (if count_list word 61 > 0
             then bind_e (decode_word word) (\<lambda>s. Inr (bin_secret @ s))
             else Inr bin_secret) (\<lambda>bin_secret'.
     bind_e (bind_e (b64decode word) decode_ascii) (\<lambda>d.
     decode_loop words bin_secret' (decoded_string @ d)))"

text \<open>Lines 125 to 128 of \<open>decode\<close>: the length, then that many groups of seven bits.\<close>

definition secret_of_bits :: "pystr \<Rightarrow> error + pystr" where
  "secret_of_bits bin_secret =
     bind_e (int2 (take 16 bin_secret)) (\<lambda>secret_length.
       let binary_letters = py_take (findall7 (drop 16 bin_secret)) secret_length
       in mapM_e (\<lambda>letter. bind_e (int2 letter) py_chr) binary_letters)"

definition decode :: "pystr list \<Rightarrow> error + (pystr \<times> pystr)" where
  "decode encoded_list =
     bind_e (decode_loop encoded_list [] []) (\<lambda>(bin_secret, decoded_string).
     bind_e (secret_of_bits bin_secret) (\<lambda>secret. Inr (secret, decoded_string)))"

text \<open>Decoding what \<open>encode\<close> returned.\<close>

definition round_trip :: "pystr \<Rightarrow> pystr \<Rightarrow> error + (pystr \<times> pystr)" where
  "round_trip text secret = bind_e (encode text secret) decode"

section \<open>Auxiliary notions for the proofs\<close>

text \<open>
  The shape of a padded token: the symbols before the last one, the alphabet position
  of the last symbol, and the number of pad characters.
\<close>

fun enc_body :: "pybytes \<Rightarrow> pystr" where
  "enc_body [] = []"
| "enc_body [a] = [dict ! (a div 4)]"
| "enc_body [a, b] = [dict ! (a div 4), dict ! (a mod 4 * 16 + b div 16)]"
| "enc_body (a # b # c # bs) =
     [dict ! (a div 4), dict ! (a mod 4 * 16 + b div 16),
      dict ! (b mod 16 * 4 + c div 64), dict ! (c mod 64)] @ enc_body bs"

fun enc_last :: "pybytes \<Rightarrow> nat" where
  "enc_last [] = 0"
| "enc_last [a] = a mod 4 * 16"
| "enc_last [a, b] = b mod 16 * 4"
| "enc_last (a # b # c # bs) = enc_last bs"

fun npad :: "pybytes \<Rightarrow> nat" where
  "npad [] = 0"
| "npad [a] = 2"
| "npad [a, b] = 1"
| "npad (a # b # c # bs) = npad bs"

text \<open>The token of \<open>bs\<close> with its last symbol moved \<open>d\<close> places up the alphabet.\<close>

definition perturbed :: "nat \<Rightarrow> pybytes \<Rightarrow> pystr" where
  "perturbed d bs = enc_body bs @ [dict ! (enc_last bs + d)] @ replicate (npad bs) 61"

definition is_bytes :: "pybytes \<Rightarrow> bool" where
  "is_bytes bs = list_all (\<lambda>x. x < 256) bs"

definition is_bits :: "pystr \<Rightarrow> bool" where
  "is_bits s = list_all is_bit s"

section \<open>Facts about the alphabet and the list operations\<close>

lemma length_dict: "length dict = 64"
  by (simp add: dict_def)

lemma distinct_dict: "distinct dict"
  by (auto simp add: dict_def)

lemma dict_no_pad: "61 \<notin> set dict"
  by (simp add: dict_def)

lemma dict_ascii: "c \<in> set dict \<Longrightarrow> c < 128"
  by (auto simp add: dict_def)

lemma index_of_nth:
  "distinct xs \<Longrightarrow> i < length xs \<Longrightarrow> index_of xs (xs ! i) = Inr i"
proof (induction xs arbitrary: i)
  case Nil
  then show ?case by simp
next
  case (Cons y ys)
  show ?case
  proof (cases i)
    case 0
    then show ?thesis by simp
  next
    case (Suc j)
    with Cons.prems have "ys ! j \<in> set ys" "y \<notin> set ys" "j < length ys" by auto
    with Cons.IH [of j] Cons.prems Suc show ?thesis by auto
  qed
qed

lemma index_of_Inr:
  "index_of xs x = Inr i \<Longrightarrow> i < length xs \<and> xs ! i = x"
proof (induction xs arbitrary: i)
  case Nil
  then show ?case by simp
next
  case (Cons y ys)
  show ?case
  proof (cases "y = x")
    case True
    with Cons.prems show ?thesis by simp
  next
    case False
    with Cons.prems obtain j where j: "index_of ys x = Inr j" "i = Suc j"
      by (cases "index_of ys x") auto
    with Cons.IH [of j] show ?thesis by simp
  qed
qed

lemma index_of_notin: "x \<notin> set xs \<Longrightarrow> index_of xs x = Inl ValueError"
  by (induction xs) auto

lemma index_of_append_first:
  "x \<notin> set xs \<Longrightarrow> index_of (xs @ x # ys) x = Inr (length xs)"
  by (induction xs) auto

lemma dict_index_nth: "i < 64 \<Longrightarrow> index_of dict (dict ! i) = Inr i"
  by (simp add: index_of_nth distinct_dict length_dict)

lemma table_a2b_nth: "i < 64 \<Longrightarrow> table_a2b_base64 (dict ! i) = Some i"
  by (simp add: table_a2b_base64_def dict_index_nth)

lemma dict_nth_in: "i < 64 \<Longrightarrow> dict ! i \<in> set dict"
  by (simp add: length_dict)

lemma dict_nth_no_pad: "i < 64 \<Longrightarrow> dict ! i \<noteq> 61"
  using dict_nth_in dict_no_pad by metis

lemma dict_nth_ascii: "i < 64 \<Longrightarrow> dict ! i < 128"
  using dict_nth_in dict_ascii by blast

section \<open>The shape of a token and its decoding\<close>

lemma is_bytes_Cons [simp]: "is_bytes (a # bs) \<longleftrightarrow> a < 256 \<and> is_bytes bs"
  by (simp add: is_bytes_def)

lemma is_bytes_Nil [simp]: "is_bytes []"
  by (simp add: is_bytes_def)

lemma npad_cases: "npad bs = 0 \<or> npad bs = 1 \<or> npad bs = 2"
  by (induction bs rule: npad.induct) auto

lemma npad_length: "npad bs = (3 - length bs mod 3) mod 3"
  by (induction bs rule: npad.induct) auto

lemma b64encode_perturbed: "0 < npad bs \<Longrightarrow> b64encode bs = perturbed 0 bs"
  by (induction bs rule: b64encode.induct) (auto simp add: perturbed_def numeral_2_eq_2)

lemma perturbed_step:
  "0 < npad bs \<Longrightarrow> perturbed d (a # b # c # bs) =
     [dict ! (a div 4), dict ! (a mod 4 * 16 + b div 16),
      dict ! (b mod 16 * 4 + c div 64), dict ! (c mod 64)] @ perturbed d bs"
  by (simp add: perturbed_def)

lemma enc_last_bound:
  "0 < npad bs \<Longrightarrow> d < 4 ^ npad bs \<Longrightarrow> enc_last bs + d < 64"
proof (induction bs rule: npad.induct)
  case (3 a b)
  have "b mod 16 * 4 \<le> 60" by (simp add: mod_less_divisor Suc_leI)
  with 3 show ?case by simp
next
  case (2 a)
  have "a mod 4 * 16 \<le> 48" by (simp add: mod_less_divisor Suc_leI)
  with 2 show ?case by simp
qed auto

lemma enc_last_dvd: "4 ^ npad bs dvd enc_last bs"
  by (induction bs rule: npad.induct) auto

lemma enc_body_dict: "is_bytes bs \<Longrightarrow> set (enc_body bs) \<subseteq> set dict"
proof (induction bs rule: enc_body.induct)
  case (2 a)
  then have "a div 4 < 64" by simp
  then show ?case by (simp add: dict_nth_in)
next
  case (3 a b)
  then have "a div 4 < 64" "a mod 4 * 16 + b div 16 < 64" by auto
  then show ?case by (simp add: dict_nth_in)
next
  case (4 a b c bs)
  then have "a div 4 < 64" "a mod 4 * 16 + b div 16 < 64"
    "b mod 16 * 4 + c div 64 < 64" "c mod 64 < 64" by auto
  with 4 show ?case by (simp add: dict_nth_in)
qed simp

lemma quad_symbols:
  assumes "i1 < 64" "i2 < 64" "i3 < 64" "i4 < 64"
  shows "a2b_loop 0 0 0 (dict ! i1 # dict ! i2 # dict ! i3 # dict ! i4 # cs) out
      = a2b_loop 0 0 0 cs
          (out @ [i1 * 4 + i2 div 16, i2 mod 16 * 16 + i3 div 4, i3 mod 4 * 64 + i4])"
  using assms by (simp add: table_a2b_nth dict_nth_no_pad)

lemma quad_decoded:
  assumes "a < 256" "b < 256" "c < 256"
  shows "a2b_loop 0 0 0 ([dict ! (a div 4), dict ! (a mod 4 * 16 + b div 16),
      dict ! (b mod 16 * 4 + c div 64), dict ! (c mod 64)] @ cs) out
      = a2b_loop 0 0 0 cs (out @ [a, b, c])"
proof -
  let ?i1 = "a div 4" and ?i2 = "a mod 4 * 16 + b div 16"
    and ?i3 = "b mod 16 * 4 + c div 64" and ?i4 = "c mod 64"
  from assms have lt: "?i1 < 64" "?i2 < 64" "?i3 < 64" "?i4 < 64" by auto
  from assms have e1: "?i1 * 4 + ?i2 div 16 = a" by auto
  from assms have e2: "?i2 mod 16 * 16 + ?i3 div 4 = b" by auto
  from assms have e3: "?i3 mod 4 * 64 + ?i4 = c" by auto
  have "a2b_loop 0 0 0 (dict ! ?i1 # dict ! ?i2 # dict ! ?i3 # dict ! ?i4 # cs) out
      = a2b_loop 0 0 0 cs
          (out @ [?i1 * 4 + ?i2 div 16, ?i2 mod 16 * 16 + ?i3 div 4, ?i3 mod 4 * 64 + ?i4])"
    by (rule quad_symbols [OF lt])
  then show ?thesis by (simp only: e1 e2 e3 append_Cons append_Nil)
qed

lemma tail1_symbols:
  assumes "i1 < 64" "i2 < 64"
  shows "a2b_loop 0 0 0 (dict ! i1 # dict ! i2 # 61 # 61 # cs) out
      = Inr (out @ [i1 * 4 + i2 div 16])"
  using assms by (simp add: table_a2b_nth dict_nth_no_pad)

lemma tail2_symbols:
  assumes "i1 < 64" "i2 < 64" "i3 < 64"
  shows "a2b_loop 0 0 0 (dict ! i1 # dict ! i2 # dict ! i3 # 61 # cs) out
      = Inr (out @ [i1 * 4 + i2 div 16, i2 mod 16 * 16 + i3 div 4])"
  using assms by (simp add: table_a2b_nth dict_nth_no_pad)

lemma a2b_perturbed:
  "is_bytes bs \<Longrightarrow> 0 < npad bs \<Longrightarrow> d < 4 ^ npad bs \<Longrightarrow>
   a2b_loop 0 0 0 (perturbed d bs) out = Inr (out @ bs)"
proof (induction bs arbitrary: out rule: npad.induct)
  case 1
  then show ?case by simp
next
  case (2 a)
  let ?i1 = "a div 4" and ?i2 = "a mod 4 * 16 + d"
  from 2 have lt: "?i1 < 64" "?i2 < 64" by auto
  from 2 have e1: "?i1 * 4 + ?i2 div 16 = a" by auto
  have "a2b_loop 0 0 0 (dict ! ?i1 # dict ! ?i2 # 61 # 61 # []) out
      = Inr (out @ [?i1 * 4 + ?i2 div 16])"
    by (rule tail1_symbols [OF lt])
  then show ?case by (simp only: e1 perturbed_def enc_body.simps enc_last.simps npad.simps
    append_Cons append_Nil replicate_Suc replicate_0 numeral_2_eq_2)
next
  case (3 a b)
  let ?i1 = "a div 4" and ?i2 = "a mod 4 * 16 + b div 16" and ?i3 = "b mod 16 * 4 + d"
  from 3 have lt: "?i1 < 64" "?i2 < 64" "?i3 < 64" by auto
  from 3 have e1: "?i1 * 4 + ?i2 div 16 = a" by auto
  from 3 have e2: "?i2 mod 16 * 16 + ?i3 div 4 = b" by auto
  have "a2b_loop 0 0 0 (dict ! ?i1 # dict ! ?i2 # dict ! ?i3 # 61 # []) out
      = Inr (out @ [?i1 * 4 + ?i2 div 16, ?i2 mod 16 * 16 + ?i3 div 4])"
    by (rule tail2_symbols [OF lt])
  then show ?case by (simp only: e1 e2 perturbed_def enc_body.simps enc_last.simps npad.simps
    append_Cons append_Nil replicate_Suc replicate_0 One_nat_def)
next
  case (4 a b c bs)
  then have abc: "a < 256" "b < 256" "c < 256" and bs: "is_bytes bs" "0 < npad bs" "d < 4 ^ npad bs"
    by simp_all
  have "a2b_loop 0 0 0 (perturbed d (a # b # c # bs)) out
      = a2b_loop 0 0 0 (perturbed d bs) (out @ [a, b, c])"
    by (simp only: perturbed_step [OF bs(2)] quad_decoded [OF abc])
  also have "\<dots> = Inr ((out @ [a, b, c]) @ bs)"
    by (rule "4.IH" [OF bs])
  finally show ?case by simp
qed

lemma a2b_unpadded:
  "is_bytes bs \<Longrightarrow> npad bs = 0 \<Longrightarrow> a2b_loop 0 0 0 (b64encode bs) out = Inr (out @ bs)"
proof (induction bs arbitrary: out rule: npad.induct)
  case (4 a b c bs)
  then have abc: "a < 256" "b < 256" "c < 256" and bs: "is_bytes bs" "npad bs = 0"
    by simp_all
  have "a2b_loop 0 0 0 (b64encode (a # b # c # bs)) out
      = a2b_loop 0 0 0 (b64encode bs) (out @ [a, b, c])"
    by (simp only: b64encode.simps quad_decoded [OF abc])
  also have "\<dots> = Inr ((out @ [a, b, c]) @ bs)"
    by (rule "4.IH" [OF bs])
  finally show ?case by simp
qed simp_all

lemma perturbed_ascii:
  assumes "is_bytes bs" "0 < npad bs" "d < 4 ^ npad bs"
  shows "list_all (\<lambda>c. c < 128) (perturbed d bs)"
proof -
  have "\<forall>c \<in> set (enc_body bs). c < 128"
    using enc_body_dict [OF assms(1)] dict_ascii by blast
  moreover have "dict ! (enc_last bs + d) < 128"
    using enc_last_bound [OF assms(2,3)] by (rule dict_nth_ascii)
  ultimately show ?thesis
    by (auto simp add: perturbed_def list_all_iff)
qed

lemma b64encode_ascii:
  "is_bytes bs \<Longrightarrow> list_all (\<lambda>c. c < 128) (b64encode bs)"
proof (induction bs rule: b64encode.induct)
  case (2 a)
  then have "a div 4 < 64" "a mod 4 * 16 < 64" by auto
  then show ?case by (simp add: dict_nth_ascii)
next
  case (3 a b)
  then have "a div 4 < 64" "a mod 4 * 16 + b div 16 < 64" "b mod 16 * 4 < 64" by auto
  then show ?case by (simp add: dict_nth_ascii)
next
  case (4 a b c bs)
  then have "a div 4 < 64" "a mod 4 * 16 + b div 16 < 64"
    "b mod 16 * 4 + c div 64 < 64" "c mod 64 < 64" by auto
  with 4 show ?case by (simp add: dict_nth_ascii)
qed simp

lemma b64decode_perturbed:
  assumes "is_bytes bs" "0 < npad bs" "d < 4 ^ npad bs"
  shows "b64decode (perturbed d bs) = Inr bs"
  using perturbed_ascii [OF assms] a2b_perturbed [OF assms, of "[]"]
  by (simp add: b64decode_def)

lemma b64decode_b64encode:
  assumes "is_bytes bs"
  shows "b64decode (b64encode bs) = Inr bs"
proof (cases "npad bs = 0")
  case True
  with assms show ?thesis
    using a2b_unpadded [of bs "[]"] b64encode_ascii [of bs] by (simp add: b64decode_def)
next
  case False
  then have "0 < npad bs" by simp
  then show ?thesis
    using b64decode_perturbed [OF assms, of 0] b64encode_perturbed [of bs] by simp
qed

lemma count_list_replicate: "count_list (replicate n x) x = n"
  by (induction n) simp_all

lemma count_body: "is_bytes bs \<Longrightarrow> count_list (enc_body bs) 61 = 0"
  using enc_body_dict [of bs] dict_no_pad by (auto simp add: count_list_0_iff)

lemma count_perturbed:
  assumes "is_bytes bs" "0 < npad bs" "d < 4 ^ npad bs"
  shows "count_list (perturbed d bs) 61 = npad bs"
  using count_body [OF assms(1)] dict_nth_no_pad [OF enc_last_bound [OF assms(2,3)]]
  by (simp add: perturbed_def count_list_replicate)

lemma count_b64encode: "is_bytes bs \<Longrightarrow> count_list (b64encode bs) 61 = npad bs"
proof (induction bs rule: b64encode.induct)
  case (2 a)
  then have "a div 4 < 64" "a mod 4 * 16 < 64" by auto
  then show ?case by (simp add: dict_nth_no_pad)
next
  case (3 a b)
  then have "a div 4 < 64" "a mod 4 * 16 + b div 16 < 64" "b mod 16 * 4 < 64" by auto
  then show ?case by (simp add: dict_nth_no_pad)
next
  case (4 a b c bs)
  then have "a div 4 < 64" "a mod 4 * 16 + b div 16 < 64"
    "b mod 16 * 4 + c div 64 < 64" "c mod 64 < 64" by auto
  with 4 show ?case by (simp add: dict_nth_no_pad)
qed simp

section \<open>Bit strings\<close>

lemma is_bits_simps [simp]:
  "is_bits []"
  "is_bits (c # s) \<longleftrightarrow> is_bit c \<and> is_bits s"
  "is_bits (s @ t) \<longleftrightarrow> is_bits s \<and> is_bits t"
  "is_bits (replicate n 48)"
  by (auto simp add: is_bits_def is_bit_def list_all_iff)

lemma is_bits_take: "is_bits s \<Longrightarrow> is_bits (take n s)"
  by (auto simp add: is_bits_def list_all_iff dest: in_set_takeD)

lemma is_bits_drop: "is_bits s \<Longrightarrow> is_bits (drop n s)"
  by (auto simp add: is_bits_def list_all_iff dest: in_set_dropD)

lemma bits_val_Nil [simp]: "bits_val [] = 0"
  by (simp add: bits_val_def)

lemma bits_val_snoc [simp]: "bits_val (s @ [c]) = 2 * bits_val s + (c - 48)"
  by (simp add: bits_val_def)

lemma bits_val_append_aux:
  "foldl (\<lambda>a c. 2 * a + (c - 48)) (a::nat) (replicate n 48 @ s)
     = foldl (\<lambda>a c. 2 * a + (c - 48)) (2 ^ n * a) s"
proof (induction n arbitrary: a)
  case 0
  then show ?case by simp
next
  case (Suc n)
  have "2 ^ n * (2 * a) = 2 * 2 ^ n * a" by simp
  with Suc [of "2 * a"] show ?case by simp
qed

lemma bits_val_zeros_append [simp]: "bits_val (replicate n 48 @ s) = bits_val s"
  using bits_val_append_aux [of 0 n s] by (simp add: bits_val_def)

lemma bits_val_zeros [simp]: "bits_val (replicate n 48) = 0"
  using bits_val_zeros_append [of n "[]"] by (simp del: bits_val_zeros_append)

lemma bits_val_lt: "is_bits s \<Longrightarrow> bits_val s < 2 ^ length s"
  by (induction s rule: rev_induct) (auto simp add: is_bit_def)

lemma bits_val_inj:
  "is_bits a \<Longrightarrow> is_bits b \<Longrightarrow> length a = length b \<Longrightarrow> bits_val a = bits_val b \<Longrightarrow> a = b"
proof (induction a arbitrary: b rule: rev_induct)
  case Nil
  then show ?case by simp
next
  case (snoc x a)
  from snoc.prems(3) obtain y b' where b: "b = b' @ [y]"
    by (cases b rule: rev_cases) auto
  from snoc.prems b have xy: "is_bit x" "is_bit y" and ab: "is_bits a" "is_bits b'"
    "length a = length b'" and v: "2 * bits_val a + (x - 48) = 2 * bits_val b' + (y - 48)"
    by simp_all
  from xy v have "x = y \<and> bits_val a = bits_val b'"
    unfolding is_bit_def by presburger
  with snoc.IH [OF ab] b show ?case by simp
qed

lemma int2_bits: "is_bits g \<Longrightarrow> g \<noteq> [] \<Longrightarrow> int2 g = Inr (int (bits_val g))"
  by (cases g) (auto simp add: int2_def is_bits_def is_bit_def)

lemma bin2_nonempty [simp]: "bin2 n \<noteq> []"
  by (subst bin2.simps) simp

lemma bin2_bits [simp]: "is_bits (bin2 n)"
proof (induction n rule: bin2.induct)
  case (1 n)
  show ?case
  proof (cases "n < 2")
    case True
    then have "n = 0 \<or> n = 1" by auto
    then show ?thesis by (subst bin2.simps) (auto simp add: is_bit_def)
  next
    case False
    have "n mod 2 = 0 \<or> n mod 2 = 1" by auto
    with False 1 show ?thesis by (subst bin2.simps) (auto simp add: is_bit_def)
  qed
qed

lemma bits_val_bin2 [simp]: "bits_val (bin2 n) = n"
proof (induction n rule: bin2.induct)
  case (1 n)
  show ?case
  proof (cases "n < 2")
    case True
    then show ?thesis using bits_val_snoc [of "[]" "48 + n"] by (subst bin2.simps) simp
  next
    case False
    with 1 show ?thesis by (subst bin2.simps) simp
  qed
qed

lemma bin2_upper: "n < 2 ^ length (bin2 n)"
  using bits_val_lt [OF bin2_bits, of n] by simp

lemma bin2_lower: "0 < n \<Longrightarrow> 2 ^ (length (bin2 n) - 1) \<le> n"
proof (induction n rule: bin2.induct)
  case (1 n)
  show ?case
  proof (cases "n < 2")
    case True
    with 1 show ?thesis by (subst bin2.simps) simp
  next
    case False
    then have "0 < n div 2" by simp
    with 1 False have "2 ^ (length (bin2 (n div 2)) - 1) \<le> n div 2" by simp
    moreover have "0 < length (bin2 (n div 2))" by simp
    then have "(2::nat) ^ length (bin2 (n div 2)) = 2 * 2 ^ (length (bin2 (n div 2)) - 1)"
      by (cases "length (bin2 (n div 2))") simp_all
    ultimately have "2 ^ length (bin2 (n div 2)) \<le> n" by simp
    with False show ?thesis by (subst bin2.simps) simp
  qed
qed

lemma length_bin2_le: "0 < w \<Longrightarrow> length (bin2 n) \<le> w \<longleftrightarrow> n < 2 ^ w"
proof
  assume "length (bin2 n) \<le> w"
  then have "(2::nat) ^ length (bin2 n) \<le> 2 ^ w" by simp
  with bin2_upper [of n] show "n < 2 ^ w" by (rule less_le_trans)
next
  assume w: "0 < w" and n: "n < 2 ^ w"
  show "length (bin2 n) \<le> w"
  proof (cases "n = 0")
    case True
    with w show ?thesis by (subst bin2.simps) simp
  next
    case False
    then have "(2::nat) ^ (length (bin2 n) - 1) \<le> n" using bin2_lower [of n] by simp
    from this n have "(2::nat) ^ (length (bin2 n) - 1) < 2 ^ w" by (rule le_less_trans)
    then have "length (bin2 n) - 1 < w" by simp
    then show ?thesis by simp
  qed
qed

lemma zfill_bits: "is_bits s \<Longrightarrow> zfill w s = replicate (w - length s) 48 @ s"
  by (cases s) (auto simp add: zfill_def is_bit_def)

lemma zfill_bin2_bits [simp]: "is_bits (zfill w (bin2 n))"
  by (simp add: zfill_bits)

lemma bits_val_zfill_bin2 [simp]: "bits_val (zfill w (bin2 n)) = n"
  by (simp add: zfill_bits)

lemma length_zfill_bin2: "length (zfill w (bin2 n)) = max w (length (bin2 n))"
  by (simp add: zfill_bits)

lemma length_zfill_bin2_fit: "0 < w \<Longrightarrow> n < 2 ^ w \<Longrightarrow> length (zfill w (bin2 n)) = w"
  using length_bin2_le [of w n] by (simp add: length_zfill_bin2)

lemma zfill_bin2_bits_val:
  assumes "is_bits g" "g \<noteq> []"
  shows "zfill (length g) (bin2 (bits_val g)) = g"
proof (rule bits_val_inj)
  from assms show "length (zfill (length g) (bin2 (bits_val g))) = length g"
    by (intro length_zfill_bin2_fit bits_val_lt) simp_all
qed (simp_all add: assms)

section \<open>One token: rewriting and extracting\<close>

lemma py_get_nat: "n < length xs \<Longrightarrow> py_get xs (int n) = Inr (xs ! n)"
  by (simp add: py_get_def)

lemma py_take_nat: "py_take xs (int n) = take n xs"
  by (simp add: py_take_def)

lemma index_of_shape:
  assumes "61 \<notin> set body" "c \<noteq> 61" "0 < p"
  shows "index_of (body @ [c] @ replicate p 61) 61 = Inr (Suc (length body))"
proof -
  from assms(3) obtain q where p: "p = Suc q" by (cases p) auto
  from assms(1,2) have "61 \<notin> set (body @ [c])" by simp
  then have "index_of ((body @ [c]) @ 61 # replicate q 61) 61 = Inr (length (body @ [c]))"
    by (rule index_of_append_first)
  with p show ?thesis by simp
qed

lemma count_shape:
  assumes "61 \<notin> set body" "c \<noteq> 61"
  shows "count_list (body @ [c] @ replicate p 61) 61 = p"
  using assms by (simp add: count_list_replicate count_list_0_iff)

lemma encode_word_shape:
  assumes "61 \<notin> set body" "k < 64" "0 < p" "is_bits g" "g \<noteq> []" "k + bits_val g < 64"
  shows "encode_word (body @ [dict ! k] @ replicate p 61) g
       = Inr (body @ [dict ! (k + bits_val g)] @ replicate p 61)"
proof -
  let ?w = "body @ [dict ! k] @ replicate p 61"
  have i: "index_of ?w 61 = Inr (Suc (length body))"
    using assms(1) dict_nth_no_pad [OF assms(2)] assms(3) by (rule index_of_shape)
  have g1: "py_get ?w (int (Suc (length body)) - 1) = Inr (dict ! k)"
    using py_get_nat [of "length body" ?w] by simp
  have t: "py_take ?w (int (Suc (length body)) - 1) = body"
    using py_take_nat [of ?w "length body"] by simp
  have d: "py_get dict (int k + int (bits_val g)) = Inr (dict ! (k + bits_val g))"
    using py_get_nat [of "k + bits_val g" dict] assms(6) by (simp add: length_dict)
  show ?thesis
    unfolding encode_word_def
    by (simp only: i g1 t d bind_e.simps int2_bits [OF assms(4,5)] dict_index_nth [OF assms(2)])
       simp
qed

lemma decode_word_shape:
  assumes "61 \<notin> set body" "k' < 64" "0 < p" "k < 64"
    and "b64decode (body @ [dict ! k'] @ replicate p 61) = Inr bs"
    and "b64encode bs = body @ [dict ! k] @ replicate p 61"
  shows "decode_word (body @ [dict ! k'] @ replicate p 61)
       = Inr (zfill (2 * p) (format_b (int k' - int k)))"
proof -
  let ?w = "body @ [dict ! k'] @ replicate p 61"
  have i: "index_of ?w 61 = Inr (Suc (length body))"
    using assms(1) dict_nth_no_pad [OF assms(2)] assms(3) by (rule index_of_shape)
  have g1: "py_get ?w (int (Suc (length body)) - 1) = Inr (dict ! k')"
    using py_get_nat [of "length body" ?w] by simp
  have g2: "py_get (body @ [dict ! k] @ replicate p 61) (int (Suc (length body)) - 1)
      = Inr (dict ! k)"
    using py_get_nat [of "length body" "body @ [dict ! k] @ replicate p 61"] by simp
  have c: "count_list ?w 61 = p"
    using assms(1) dict_nth_no_pad [OF assms(2)] by (rule count_shape)
  show ?thesis
    unfolding decode_word_def
    by (simp only: i g1 g2 c bind_e.simps assms(5,6) dict_index_nth [OF assms(2)]
          dict_index_nth [OF assms(4)])
qed

lemma body_no_pad: "is_bytes bs \<Longrightarrow> 61 \<notin> set (enc_body bs)"
  using enc_body_dict [of bs] dict_no_pad by blast

lemma enc_last_lt: "0 < npad bs \<Longrightarrow> enc_last bs < 64"
  using enc_last_bound [of bs 0] by simp

lemma width_bound:
  assumes "is_bits g" "length g = 2 * npad bs"
  shows "bits_val g < 4 ^ npad bs"
proof -
  have "(4::nat) ^ npad bs = 2 ^ (2 * npad bs)" by (simp add: power_mult)
  with bits_val_lt [OF assms(1)] assms(2) show ?thesis by simp
qed

lemma encode_word_b64encode:
  assumes "is_bytes bs" "0 < npad bs" "is_bits g" "length g = 2 * npad bs"
  shows "encode_word (b64encode bs) g = Inr (perturbed (bits_val g) bs)"
proof -
  from assms(2,4) have ne: "g \<noteq> []" by auto
  have lt: "enc_last bs + bits_val g < 64"
    using assms(2) width_bound [OF assms(3,4)] by (rule enc_last_bound)
  have "encode_word (enc_body bs @ [dict ! enc_last bs] @ replicate (npad bs) 61) g
      = Inr (enc_body bs @ [dict ! (enc_last bs + bits_val g)] @ replicate (npad bs) 61)"
    using body_no_pad [OF assms(1)] enc_last_lt [OF assms(2)] assms(2,3) ne lt
    by (rule encode_word_shape)
  then show ?thesis
    by (simp add: b64encode_perturbed [OF assms(2)] perturbed_def)
qed

lemma decode_word_perturbed:
  assumes "is_bytes bs" "0 < npad bs" "is_bits g" "length g = 2 * npad bs"
  shows "decode_word (perturbed (bits_val g) bs) = Inr g"
proof -
  from assms(2,4) have ne: "g \<noteq> []" by auto
  have d: "bits_val g < 4 ^ npad bs" by (rule width_bound [OF assms(3,4)])
  have lt: "enc_last bs + bits_val g < 64"
    using assms(2) d by (rule enc_last_bound)
  have dec: "b64decode (enc_body bs @ [dict ! (enc_last bs + bits_val g)]
       @ replicate (npad bs) 61) = Inr bs"
    using b64decode_perturbed [OF assms(1,2) d] by (simp add: perturbed_def)
  have enc: "b64encode bs = enc_body bs @ [dict ! enc_last bs] @ replicate (npad bs) 61"
    using b64encode_perturbed [OF assms(2)] by (simp add: perturbed_def)
  have "decode_word (enc_body bs @ [dict ! (enc_last bs + bits_val g)]
       @ replicate (npad bs) 61)
      = Inr (zfill (2 * npad bs) (format_b (int (enc_last bs + bits_val g) - int (enc_last bs))))"
    using body_no_pad [OF assms(1)] lt assms(2) enc_last_lt [OF assms(2)] dec enc
    by (rule decode_word_shape)
  moreover have "format_b (int (enc_last bs + bits_val g) - int (enc_last bs))
      = bin2 (bits_val g)"
    by (simp add: format_b_def)
  ultimately show ?thesis
    using zfill_bin2_bits_val [OF assms(3) ne] assms(4) by (simp add: perturbed_def)
qed

section \<open>The claims\<close>

text \<open>
  Claim C1 (Slot Codec involution). A token is the Base64 encoding of a byte string; when
  it ends in one or two pad characters and \<open>g\<close> is a string of binary digits of twice
  that width, \<open>encode_word\<close> succeeds on it and \<open>decode_word\<close> of the rewritten token
  returns \<open>g\<close>.
\<close>

theorem slot_codec_involution:
  assumes "is_bytes bs"
    and "count_list (b64encode bs) 61 \<in> {1, 2}"
    and "is_bits g"
    and "length g = 2 * count_list (b64encode bs) 61"
  shows "bind_e (encode_word (b64encode bs) g) decode_word = Inr g"
proof -
  from assms(1,2) have p: "0 < npad bs" by (auto simp add: count_b64encode)
  from assms(1,4) have w: "length g = 2 * npad bs" by (simp add: count_b64encode)
  show ?thesis
    by (simp add: encode_word_b64encode [OF assms(1) p assms(3) w]
          decode_word_perturbed [OF assms(1) p assms(3) w])
qed

theorem slot_codec_involution_witness:
  "is_bytes (str ''a '') \<and> count_list (b64encode (str ''a '')) 61 \<in> {1, 2}
   \<and> is_bits (str ''10'') \<and> length (str ''10'') = 2 * count_list (b64encode (str ''a '')) 61
   \<and> encode_word (b64encode (str ''a '')) (str ''10'') = Inr (str ''YSC='')
   \<and> bind_e (encode_word (b64encode (str ''a '')) (str ''10'')) decode_word = Inr (str ''10'')"
proof -
  have h1: "is_bytes (str ''a '')" by code_simp
  have h2: "count_list (b64encode (str ''a '')) 61 \<in> {1, 2}" by code_simp
  have h3: "is_bits (str ''10'')" by code_simp
  have h4: "length (str ''10'') = 2 * count_list (b64encode (str ''a '')) 61" by code_simp
  have h5: "encode_word (b64encode (str ''a '')) (str ''10'') = Inr (str ''YSC='')" by code_simp
  from h1 h2 h3 h4 h5 slot_codec_involution [OF h1 h2 h3 h4] show ?thesis by simp
qed

end
